theory Spec2Isabelle
  imports Complex_Main "HOL-Library.AList"
begin

section \<open>Data model\<close>

text \<open>
  The notebook works on the output of an external parser.  A parsed document is a sequence
  of tokens; each token carries its surface text, its part-of-speech tag, its dependency
  label and a reference to its head token.  A token object is identified by its position
  in the document (this is what the parser's token equality and hash compare), so a
  reference to a token is modelled as an index into the token list, and the head reference
  of a token is the index of its head.  The field \<open>tok_text\<close> is the attribute \<open>text\<close>
  of the source, \<open>pos\<close> and \<open>dep\<close> are \<open>pos_\<close> and \<open>dep_\<close> (the source's spellings are
  not legal names here); the texts and labels are only ever compared for equality.  The
  parser only hands out references to tokens of the document;
  \<open>wf_tree\<close> below states this for the head references.
\<close>

record token =
  tok_text :: string
  pos :: string
  dep :: string
  head :: nat

text \<open>A sentence is a span of the document: the tokens from index \<open>fst s\<close> up to, and
  excluding, index \<open>snd s\<close>.  Two spans are the same dictionary key when their bounds agree.\<close>

type_synonym span = "nat \<times> nat"

record doc =
  tokens :: "token list"
  sents :: "span list"

definition span_tokens :: "span \<Rightarrow> nat list" where
  "span_tokens s = [fst s..<snd s]"

definition mk_token :: "string \<Rightarrow> string \<Rightarrow> string \<Rightarrow> nat \<Rightarrow> token" where
  "mk_token t p d h = \<lparr>tok_text = t, pos = p, dep = d, head = h\<rparr>"

datatype py_error = KeyError | ZeroDivisionError

section \<open>The tone of a sentence\<close>

text \<open>
  \<^verbatim>\<open>
  num_pos = len([word for word in sentence.split() if word in positive_words])
  num_neg = len([word for word in sentence.split() if word in negative_words])
  tone = num_neg / (num_neg + num_pos)
  \<close>
  A Python \<open>str\<close> is a sequence of Unicode code points, and what \<open>sentence.split()\<close>
  returns depends on which code points are whitespace.  The strings of this computation
  are therefore lists of code points; \<open>ustr\<close> reads an ASCII literal as such a string.

  \<open>is_space\<close> is the whitespace test of \<open>str.split\<close>: the code points U+0009 to U+000D,
  U+001C to U+0020, U+0085, U+00A0, U+1680, U+2000 to U+200A, U+2028, U+2029, U+202F,
  U+205F and U+3000.  \<open>str_split\<close> is \<open>sentence.split()\<close>: the maximal runs of
  code points that are not whitespace, in order.  The quotient is kept exact (a rational);
  Python rounds it to a double.  A zero divisor raises \<open>ZeroDivisionError\<close>.
\<close>

type_synonym py_str = "nat list"

definition ustr :: "string \<Rightarrow> py_str" where
  "ustr s = map of_char s"

definition is_space :: "nat \<Rightarrow> bool" where
  "is_space c =
     (c \<in> set [0x09, 0x0A, 0x0B, 0x0C, 0x0D, 0x1C, 0x1D, 0x1E, 0x1F, 0x20, 0x85, 0xA0,
                0x1680, 0x2028, 0x2029, 0x202F, 0x205F, 0x3000]
      \<or> (0x2000 \<le> c \<and> c \<le> 0x200A))"

fun split_ws :: "py_str \<Rightarrow> py_str \<Rightarrow> py_str list" where
  "split_ws cur [] = (if cur = [] then [] else [cur])"
| "split_ws cur (c # cs) =
     (if is_space c then (if cur = [] then split_ws [] cs else cur # split_ws [] cs)
      else split_ws (cur @ [c]) cs)"

definition str_split :: "py_str \<Rightarrow> py_str list" where
  "str_split sentence = split_ws [] sentence"

definition tone :: "py_str list \<Rightarrow> py_str list \<Rightarrow> py_str \<Rightarrow> py_error + rat" where
  "tone positive_words negative_words sentence =
     (let num_pos = length [word \<leftarrow> str_split sentence. word \<in> set positive_words];
          num_neg = length [word \<leftarrow> str_split sentence. word \<in> set negative_words]
      in if num_neg + num_pos = 0 then Inl ZeroDivisionError
         else Inr (of_nat num_neg / of_nat (num_neg + num_pos)))"

definition positive_words :: "py_str list" where
  "positive_words = map ustr [''great'', ''tremendous'', ''amazing'']"

definition negative_words :: "py_str list" where
  "negative_words = map ustr [''awful'', ''terrible'', ''horrific'']"

section \<open>The governing verb of a token\<close>

text \<open>
  \<^verbatim>\<open>
  def get_verb(w):
      h = w
      while True:
          if h.pos_ == 'VERB' and h.dep_ != 'aux':
              break
          h = h.head
      return h
  \<close>
  The loop has no other exit, so it may run forever: the result \<open>None\<close> stands for a call
  that does not return.
\<close>

partial_function (option) get_verb :: "token list \<Rightarrow> nat \<Rightarrow> nat option" where
  "get_verb ts h =
     (if pos (ts ! h) = ''VERB'' \<and> dep (ts ! h) \<noteq> ''aux'' then Some h
      else get_verb ts (head (ts ! h)))"

declare get_verb.simps [code]

text \<open>The exit condition of the loop, and the \<open>k\<close>-th token on the head chain of \<open>w\<close>
  (the token itself for \<open>k = 0\<close>).\<close>

definition main_verb :: "token \<Rightarrow> bool" where
  "main_verb t = (pos t = ''VERB'' \<and> dep t \<noteq> ''aux'')"

fun ancestor :: "token list \<Rightarrow> nat \<Rightarrow> nat \<Rightarrow> nat" where
  "ancestor ts 0 w = w"
| "ancestor ts (Suc k) w = ancestor ts k (head (ts ! w))"

text \<open>
  A well-formed dependency tree: every head reference points into the document, and the
  head chain of every token reaches a root, a token that is its own head.  In such a tree
  the chain of a token has reached its root after \<open>length ts\<close> steps.
\<close>

definition is_root :: "token list \<Rightarrow> nat \<Rightarrow> bool" where
  "is_root ts r = (head (ts ! r) = r)"

definition wf_tree :: "token list \<Rightarrow> bool" where
  "wf_tree ts =
     list_all (\<lambda>w. head (ts ! w) < length ts \<and>
                   list_ex (\<lambda>k. is_root ts (ancestor ts k w)) [0..<length ts])
       [0..<length ts]"

definition sent_root :: "token list \<Rightarrow> nat \<Rightarrow> nat" where
  "sent_root ts w = ancestor ts (length ts) w"

text \<open>The head chain of a token, walking upward and starting at the token itself.  It has
  \<open>length ts\<close> entries, so in a well-formed tree it runs up to the root (and repeats the
  root once it is reached).\<close>

definition head_chain :: "token list \<Rightarrow> nat \<Rightarrow> nat list" where
  "head_chain ts w = map (\<lambda>k. ancestor ts k w) [0..<length ts]"

section \<open>Matching words and pairing them by verb\<close>

text \<open>
  \<^verbatim>\<open>
  def find_sentence(doc):
      return_items = {}
      for s in doc.sents:
          ep_words = [w for w in s if w.text in earnings_words]
          ep_verbs = {w:get_verb(w) for w in ep_words}
          fp_words = [w for w in s if w.text in forward_words]
          fp_verbs = {w:get_verb(w) for w in fp_words}
          for e, ev in ep_verbs.items():
              for f, fv in fp_verbs.items():
                  if ev == fv:
                      if s not in return_items:
                          return_items.update({s: [[e.text, f.text, ev]]})
                      else:
                          return_items[s].append([e.text, f.text, ev])
      return return_items
  \<close>
  The word lists \<open>earnings_words\<close> and \<open>forward_words\<close> are globals of the notebook and
  parameters here.  A dictionary is an association list in insertion order; storing under
  a key that is present replaces the value in place (\<open>AList.update\<close>).  A call of
  \<open>get_verb\<close> that does not return keeps \<open>find_sentence\<close> from returning.
\<close>

definition match_words :: "token list \<Rightarrow> string list \<Rightarrow> span \<Rightarrow> nat list" where
  "match_words ts words s = [w \<leftarrow> span_tokens s. tok_text (ts ! w) \<in> set words]"

fun verb_dict :: "token list \<Rightarrow> nat list \<Rightarrow> (nat \<times> nat) list \<Rightarrow> (nat \<times> nat) list option" where
  "verb_dict ts [] d = Some d"
| "verb_dict ts (w # ws) d =
     (case get_verb ts w of None \<Rightarrow> None
      | Some v \<Rightarrow> verb_dict ts ws (AList.update w v d))"

type_synonym guidance = "string \<times> string \<times> nat"

type_synonym items = "(span \<times> guidance list) list"

definition emit :: "span \<Rightarrow> guidance \<Rightarrow> items \<Rightarrow> items" where
  "emit s inst return_items =
     (case map_of return_items s of
        None \<Rightarrow> AList.update s [inst] return_items
      | Some l \<Rightarrow> AList.update s (l @ [inst]) return_items)"

definition pair_loop ::
  "token list \<Rightarrow> span \<Rightarrow> (nat \<times> nat) list \<Rightarrow> (nat \<times> nat) list \<Rightarrow> items \<Rightarrow> items" where
  "pair_loop ts s ep_verbs fp_verbs return_items =
     fold (\<lambda>(e, ev). fold (\<lambda>(f, fv) acc.
             if ev = fv then emit s (tok_text (ts ! e), tok_text (ts ! f), ev) acc else acc)
           fp_verbs)
       ep_verbs return_items"

fun sent_loop ::
  "token list \<Rightarrow> string list \<Rightarrow> string list \<Rightarrow> span list \<Rightarrow> items \<Rightarrow> items option" where
  "sent_loop ts earnings_words forward_words [] return_items = Some return_items"
| "sent_loop ts earnings_words forward_words (s # ss) return_items =
     (case verb_dict ts (match_words ts earnings_words s) [] of None \<Rightarrow> None
      | Some ep_verbs \<Rightarrow>
     (case verb_dict ts (match_words ts forward_words s) [] of None \<Rightarrow> None
      | Some fp_verbs \<Rightarrow>
        sent_loop ts earnings_words forward_words ss
          (pair_loop ts s ep_verbs fp_verbs return_items)))"

definition find_sentence :: "string list \<Rightarrow> string list \<Rightarrow> doc \<Rightarrow> items option" where
  "find_sentence earnings_words forward_words d =
     sent_loop (tokens d) earnings_words forward_words (sents d) []"

text \<open>The instances recorded for a sentence; none when the sentence is not a key.\<close>

definition found :: "items \<Rightarrow> span \<Rightarrow> guidance list" where
  "found return_items s = (case map_of return_items s of None \<Rightarrow> [] | Some l \<Rightarrow> l)"

text \<open>
  Notions for stating what \<open>find_sentence\<close> returns: the dictionary of verbs of a list of
  tokens on which \<open>get_verb\<close> returns, the instances that the two nested loops emit, in
  order, for two such dictionaries, the instances of one sentence, and the invariant that
  no sentence is recorded with an empty list.
\<close>

definition verbs_of :: "token list \<Rightarrow> nat list \<Rightarrow> (nat \<times> nat) list" where
  "verbs_of ts ws =
     concat (map (\<lambda>w. case get_verb ts w of None \<Rightarrow> [] | Some v \<Rightarrow> [(w, v)]) ws)"

definition pairs_of :: "token list \<Rightarrow> (nat \<times> nat) list \<Rightarrow> (nat \<times> nat) list \<Rightarrow> guidance list" where
  "pairs_of ts ep_verbs fp_verbs =
     concat (map (\<lambda>(e, ev). concat (map (\<lambda>(f, fv).
         if ev = fv then [(tok_text (ts ! e), tok_text (ts ! f), ev)] else []) fp_verbs)) ep_verbs)"

definition sent_pairs :: "token list \<Rightarrow> string list \<Rightarrow> string list \<Rightarrow> span \<Rightarrow> guidance list" where
  "sent_pairs ts ew fw s =
     pairs_of ts (verbs_of ts (match_words ts ew s)) (verbs_of ts (match_words ts fw s))"

definition items_ok :: "items \<Rightarrow> bool" where
  "items_ok return_items = (\<forall>s. map_of return_items s \<noteq> Some [])"

definition earnings_words :: "string list" where
  "earnings_words = [''earnings'', ''profitability'', ''dollars per share'']"

definition forward_words :: "string list" where
  "forward_words = [''forecasted'', ''estimated'', ''will'', ''expected'']"

section \<open>The subject of each verb\<close>

text \<open>
  \<^verbatim>\<open>
  def get_subjMap(doc):
      subj_map = {}
      for s in doc.sents:
          for w in s:
              if w.dep_ == 'nsubj':
                  subj_map.update({w.head: w})
      return subj_map
  \<close>
  \<open>subj_step\<close> is the body of the inner loop.
\<close>

definition subj_step :: "token list \<Rightarrow> nat \<Rightarrow> (nat \<times> nat) list \<Rightarrow> (nat \<times> nat) list" where
  "subj_step ts w subj_map =
     (if dep (ts ! w) = ''nsubj'' then AList.update (head (ts ! w)) w subj_map else subj_map)"

definition get_subjMap :: "doc \<Rightarrow> (nat \<times> nat) list" where
  "get_subjMap d = fold (\<lambda>s. fold (subj_step (tokens d)) (span_tokens s)) (sents d) []"

text \<open>The order in which \<open>get_subjMap\<close> visits the tokens.\<close>

definition scan_order :: "doc \<Rightarrow> nat list" where
  "scan_order d = concat (map span_tokens (sents d))"

text \<open>
  \<^verbatim>\<open>
  for instances in found_sentences.values():
      for instance in instances:
          e, f, v = instance
          subj = subj_map[v]
          print(e, f, v, subj)
  \<close>
  The printed lines are the result; a key that is missing raises \<open>KeyError\<close>, which
  nothing catches.
\<close>

fun lookup_instances ::
  "(nat \<times> nat) list \<Rightarrow> guidance list \<Rightarrow> py_error + (string \<times> string \<times> nat \<times> nat) list" where
  "lookup_instances subj_map [] = Inr []"
| "lookup_instances subj_map ((e, f, v) # rest) =
     (case map_of subj_map v of
        None \<Rightarrow> Inl KeyError
      | Some subj \<Rightarrow>
          (case lookup_instances subj_map rest of
             Inl err \<Rightarrow> Inl err
           | Inr out \<Rightarrow> Inr ((e, f, v, subj) # out)))"

definition lookup_subjects ::
  "(nat \<times> nat) list \<Rightarrow> items \<Rightarrow> py_error + (string \<times> string \<times> nat \<times> nat) list" where
  "lookup_subjects subj_map found_sentences =
     lookup_instances subj_map (concat (map snd found_sentences))"

text \<open>
  \<^verbatim>\<open>
  for e, v in e_verbs.items():
      subj = subj_map[v.head]
      print(e, subj)
  \<close>
\<close>

fun lookup_head_subjects ::
  "token list \<Rightarrow> (nat \<times> nat) list \<Rightarrow> (nat \<times> nat) list \<Rightarrow> py_error + (nat \<times> nat) list" where
  "lookup_head_subjects ts subj_map [] = Inr []"
| "lookup_head_subjects ts subj_map ((e, v) # rest) =
     (case map_of subj_map (head (ts ! v)) of
        None \<Rightarrow> Inl KeyError
      | Some subj \<Rightarrow>
          (case lookup_head_subjects ts subj_map rest of
             Inl err \<Rightarrow> Inl err
           | Inr out \<Rightarrow> Inr ((e, subj) # out)))"

section \<open>Parsed sentences\<close>

text \<open>The parse of \<open>XYZ announced that earnings will increase this year.\<close> printed by the
  notebook (text, tag, dependency label, head).\<close>

definition sent_tokens :: "token list" where
  "sent_tokens =
     [mk_token ''XYZ'' ''PROPN'' ''nsubj'' 1,
      mk_token ''announced'' ''VERB'' ''ROOT'' 1,
      mk_token ''that'' ''ADP'' ''mark'' 5,
      mk_token ''earnings'' ''NOUN'' ''nsubj'' 5,
      mk_token ''will'' ''VERB'' ''aux'' 5,
      mk_token ''increase'' ''VERB'' ''ccomp'' 1,
      mk_token ''this'' ''DET'' ''det'' 7,
      mk_token ''year'' ''NOUN'' ''npadvmod'' 5,
      mk_token ''.'' ''PUNCT'' ''punct'' 1]"

definition sent_doc :: doc where
  "sent_doc = \<lparr>tokens = sent_tokens, sents = [(0, 9)]\<rparr>"

text \<open>The words of \<open>bad_sent\<close>, and one parse of them.  The notebook does not print the
  parser's output for this sentence; the parse below attaches \<open>earnings\<close> to \<open>fallen\<close> and
  \<open>will\<close> to \<open>manage\<close>.\<close>

definition bad_sent_words :: "string list" where
  "bad_sent_words =
     [''XYZ'', ''stated'', ''that'', ''although'', ''earnings'', ''had'', ''fallen'',
      ''last'', ''year'', '','', ''the'', ''board'', ''remained'', ''confident'', ''in'',
      ''how'', ''the'', ''new'', ''CEO'', ''will'', ''manage'', ''the'', ''company'', ''.'']"

definition bad_sent_tokens :: "token list" where
  "bad_sent_tokens =
     [mk_token ''XYZ'' ''PROPN'' ''nsubj'' 1,
      mk_token ''stated'' ''VERB'' ''ROOT'' 1,
      mk_token ''that'' ''ADP'' ''mark'' 12,
      mk_token ''although'' ''ADP'' ''mark'' 6,
      mk_token ''earnings'' ''NOUN'' ''nsubj'' 6,
      mk_token ''had'' ''VERB'' ''aux'' 6,
      mk_token ''fallen'' ''VERB'' ''advcl'' 12,
      mk_token ''last'' ''ADJ'' ''amod'' 8,
      mk_token ''year'' ''NOUN'' ''npadvmod'' 6,
      mk_token '','' ''PUNCT'' ''punct'' 12,
      mk_token ''the'' ''DET'' ''det'' 11,
      mk_token ''board'' ''NOUN'' ''nsubj'' 12,
      mk_token ''remained'' ''VERB'' ''ccomp'' 1,
      mk_token ''confident'' ''ADJ'' ''acomp'' 12,
      mk_token ''in'' ''ADP'' ''prep'' 13,
      mk_token ''how'' ''ADV'' ''advmod'' 20,
      mk_token ''the'' ''DET'' ''det'' 18,
      mk_token ''new'' ''ADJ'' ''amod'' 18,
      mk_token ''CEO'' ''PROPN'' ''nsubj'' 20,
      mk_token ''will'' ''VERB'' ''aux'' 20,
      mk_token ''manage'' ''VERB'' ''pcomp'' 14,
      mk_token ''the'' ''DET'' ''det'' 22,
      mk_token ''company'' ''NOUN'' ''dobj'' 20,
      mk_token ''.'' ''PUNCT'' ''punct'' 1]"

text \<open>A sentence without a verb, \<open>Strong earnings.\<close>: its root is a noun.\<close>

definition verbless_tokens :: "token list" where
  "verbless_tokens =
     [mk_token ''Strong'' ''ADJ'' ''amod'' 1,
      mk_token ''earnings'' ''NOUN'' ''ROOT'' 1,
      mk_token ''.'' ''PUNCT'' ''punct'' 1]"

text \<open>The notebook's sentence followed by the sentence without a verb.\<close>

definition two_sent_doc :: doc where
  "two_sent_doc =
     \<lparr>tokens = sent_tokens @
        [mk_token ''Strong'' ''ADJ'' ''amod'' 10,
         mk_token ''earnings'' ''NOUN'' ''ROOT'' 10,
         mk_token ''.'' ''PUNCT'' ''punct'' 10],
      sents = [(0, 9), (9, 12)]\<rparr>"

text \<open>The notebook's sentence followed by \<open>Analysts estimated growth.\<close>, a sentence
  with a forward-looking word and no topic word.\<close>

definition analyst_doc :: doc where
  "analyst_doc =
     \<lparr>tokens = sent_tokens @
        [mk_token ''Analysts'' ''NOUN'' ''nsubj'' 10,
         mk_token ''estimated'' ''VERB'' ''ROOT'' 10,
         mk_token ''growth'' ''NOUN'' ''dobj'' 10,
         mk_token ''.'' ''PUNCT'' ''punct'' 10],
      sents = [(0, 9), (9, 13)]\<rparr>"

text \<open>An elliptical sentence, \<open>will increase earnings.\<close>: no token is a nominal subject.\<close>

definition elliptical_doc :: doc where
  "elliptical_doc =
     \<lparr>tokens =
        [mk_token ''will'' ''VERB'' ''aux'' 1,
         mk_token ''increase'' ''VERB'' ''ROOT'' 1,
         mk_token ''earnings'' ''NOUN'' ''dobj'' 1,
         mk_token ''.'' ''PUNCT'' ''punct'' 1],
      sents = [(0, 4)]\<rparr>"

section \<open>Properties of the governing-verb resolver\<close>

lemma get_verb_unfold:
  "get_verb ts h = (if main_verb (ts ! h) then Some h else get_verb ts (head (ts ! h)))"
  by (subst get_verb.simps) (simp only: main_verb_def)

lemma get_verb_first:
  "main_verb (ts ! ancestor ts k w) \<Longrightarrow> (\<forall>j<k. \<not> main_verb (ts ! ancestor ts j w))
   \<Longrightarrow> get_verb ts w = Some (ancestor ts k w)"
proof (induction k arbitrary: w)
  case 0
  then show ?case by (subst get_verb_unfold) simp
next
  case (Suc k)
  from Suc.prems(2) have "\<not> main_verb (ts ! ancestor ts 0 w)" by blast
  then have nw: "\<not> main_verb (ts ! w)" by simp
  have "\<forall>j<k. \<not> main_verb (ts ! ancestor ts j (head (ts ! w)))"
  proof (intro allI impI)
    fix j assume "j < k"
    then have "Suc j < Suc k" by simp
    with Suc.prems(2) have "\<not> main_verb (ts ! ancestor ts (Suc j) w)" by blast
    then show "\<not> main_verb (ts ! ancestor ts j (head (ts ! w)))" by simp
  qed
  with Suc.IH [of "head (ts ! w)"] Suc.prems(1)
  have "get_verb ts (head (ts ! w)) = Some (ancestor ts k (head (ts ! w)))" by simp
  with nw show ?case by (subst get_verb_unfold) simp
qed

lemma get_verb_Some:
  "get_verb ts w = Some v \<Longrightarrow>
   \<exists>k. v = ancestor ts k w \<and> main_verb (ts ! v) \<and> (\<forall>j<k. \<not> main_verb (ts ! ancestor ts j w))"
proof (induct ts w v rule: get_verb.raw_induct [rotated 1, consumes 1])
  case (1 get_verb' ts h v)
  note step = 1(2) [folded main_verb_def]
  show ?case
  proof (cases "main_verb (ts ! h)")
    case True
    with step have "v = h" by simp
    with True have "v = ancestor ts 0 h \<and> main_verb (ts ! v) \<and> (\<forall>j<0. \<not> main_verb (ts ! ancestor ts j h))"
      by simp
    then show ?thesis by blast
  next
    case False
    with step have "get_verb' ts (head (ts ! h)) = Some v" by simp
    from 1(1) [OF this] obtain k where k: "v = ancestor ts k (head (ts ! h))" "main_verb (ts ! v)"
      "\<forall>j<k. \<not> main_verb (ts ! ancestor ts j (head (ts ! h)))" by blast
    have "\<forall>j<Suc k. \<not> main_verb (ts ! ancestor ts j h)"
    proof (intro allI impI)
      fix j assume "j < Suc k"
      then show "\<not> main_verb (ts ! ancestor ts j h)"
        using False k(3) by (cases j) auto
    qed
    with k have "v = ancestor ts (Suc k) h \<and> main_verb (ts ! v) \<and> (\<forall>j<Suc k. \<not> main_verb (ts ! ancestor ts j h))"
      by simp
    then show ?thesis by blast
  qed
qed

lemma get_verb_None:
  assumes "\<forall>k. \<not> main_verb (ts ! ancestor ts k w)"
  shows "get_verb ts w = None"
proof (cases "get_verb ts w")
  case None
  then show ?thesis .
next
  case (Some v)
  from get_verb_Some [OF this] assms show ?thesis by blast
qed

lemma ancestor_add: "ancestor ts (j + k) w = ancestor ts k (ancestor ts j w)"
  by (induction j arbitrary: w) simp_all

lemma ancestor_root: "is_root ts r \<Longrightarrow> ancestor ts k r = r"
  by (induction k) (simp_all add: is_root_def)

lemma wf_tree_head: "wf_tree ts \<Longrightarrow> w < length ts \<Longrightarrow> head (ts ! w) < length ts"
  by (simp add: wf_tree_def list_all_iff)

lemma wf_tree_root:
  "wf_tree ts \<Longrightarrow> w < length ts \<Longrightarrow> \<exists>k<length ts. is_root ts (ancestor ts k w)"
  unfolding wf_tree_def list_all_iff list_ex_iff
proof -
  assume a: "\<forall>w\<in>set [0..<length ts]. head (ts ! w) < length ts \<and>
    (\<exists>k\<in>set [0..<length ts]. is_root ts (ancestor ts k w))" and w: "w < length ts"
  from w have "w \<in> set [0..<length ts]" by simp
  with a have "\<exists>k\<in>set [0..<length ts]. is_root ts (ancestor ts k w)" by blast
  then obtain k where "k \<in> set [0..<length ts]" "is_root ts (ancestor ts k w)" by blast
  then have "k < length ts \<and> is_root ts (ancestor ts k w)" by simp
  then show "\<exists>k<length ts. is_root ts (ancestor ts k w)" by blast
qed

lemma ancestor_in_doc: "wf_tree ts \<Longrightarrow> w < length ts \<Longrightarrow> ancestor ts k w < length ts"
  by (induction k arbitrary: w) (simp_all add: wf_tree_head)

lemma chain_bounded:
  assumes "wf_tree ts" "w < length ts"
  shows "\<exists>j<length ts. ancestor ts k w = ancestor ts j w"
proof -
  from wf_tree_root [OF assms] obtain r where r: "r < length ts" "is_root ts (ancestor ts r w)"
    by blast
  show ?thesis
  proof (cases "k < length ts")
    case True
    then show ?thesis by blast
  next
    case False
    with r(1) have "k = r + (k - r)" by simp
    then have "ancestor ts k w = ancestor ts (k - r) (ancestor ts r w)"
      using ancestor_add [of ts r "k - r" w] by simp
    also have "\<dots> = ancestor ts r w" using r(2) by (rule ancestor_root)
    finally show ?thesis using r(1) by blast
  qed
qed

lemma sent_root_is_root:
  assumes "wf_tree ts" "w < length ts"
  shows "is_root ts (sent_root ts w)"
proof -
  from wf_tree_root [OF assms] obtain r where r: "r < length ts" "is_root ts (ancestor ts r w)"
    by blast
  then have "length ts = r + (length ts - r)" by simp
  then have "ancestor ts (length ts) w = ancestor ts (length ts - r) (ancestor ts r w)"
    using ancestor_add [of ts r "length ts - r" w] by simp
  also have "\<dots> = ancestor ts r w" using r(2) by (rule ancestor_root)
  finally show ?thesis using r(2) by (simp add: sent_root_def)
qed

lemma head_chain_nth: "k < length ts \<Longrightarrow> head_chain ts w ! k = ancestor ts k w"
  by (simp add: head_chain_def)

lemma length_head_chain: "length (head_chain ts w) = length ts"
  by (simp add: head_chain_def)

lemma set_head_chain: "set (head_chain ts w) = {ancestor ts k w |k. k < length ts}"
  by (auto simp add: head_chain_def)

text \<open>
  Claim C1 says that, in a well-formed dependency tree, \<open>get_verb\<close> returns the
  sentence root for a token whose head chain holds no token tagged \<open>VERB\<close> with a label
  other than \<open>aux\<close>.  The loop of \<open>get_verb\<close> leaves only at such a token and has no
  test for the root: on every such input the chain arrives at the root, which is its own
  head, and the call never returns.
\<close>

theorem get_verb_without_verb:
  assumes "wf_tree ts" and "w < length ts"
    and "\<forall>v \<in> set (head_chain ts w). \<not> main_verb (ts ! v)"
  shows "is_root ts (sent_root ts w) \<and> get_verb ts w = None"
proof
  show "is_root ts (sent_root ts w)" using assms(1,2) by (rule sent_root_is_root)
  show "get_verb ts w = None"
  proof (rule get_verb_None, rule allI)
    fix k
    from chain_bounded [OF assms(1,2)]
    obtain j where "j < length ts" "ancestor ts k w = ancestor ts j w" by blast
    then have "ancestor ts k w \<in> set (head_chain ts w)" by (auto simp add: set_head_chain)
    with assms(3) show "\<not> main_verb (ts ! ancestor ts k w)" by blast
  qed
qed

theorem get_verb_without_verb_witness:
  "wf_tree verbless_tokens \<and> 1 < length verbless_tokens
   \<and> head_chain verbless_tokens 1 = [1, 1, 1] \<and> \<not> main_verb (verbless_tokens ! 1)
   \<and> sent_root verbless_tokens 1 = 1
   \<and> get_verb verbless_tokens 1 = None"
proof -
  have 1: "wf_tree verbless_tokens" by code_simp
  have 2: "1 < length verbless_tokens" by code_simp
  have c: "head_chain verbless_tokens 1 = [1, 1, 1]" by code_simp
  have m: "\<not> main_verb (verbless_tokens ! 1)" by code_simp
  have 3: "\<forall>v \<in> set (head_chain verbless_tokens 1). \<not> main_verb (verbless_tokens ! v)"
    unfolding c using m by simp
  have 4: "sent_root verbless_tokens 1 = 1" by code_simp
  from 1 2 c m 4 get_verb_without_verb [OF 1 2 3] show ?thesis by blast
qed

text \<open>
  Claim C2: in a well-formed dependency tree, for a token whose head chain holds a token
  tagged \<open>VERB\<close> with a label other than \<open>aux\<close>, \<open>get_verb\<close> returns, and what it
  returns is the first such token of the chain, walking upward from the token itself; the
  token returned is a token of the document and its label is not \<open>aux\<close>.
\<close>

theorem get_verb_first_verb:
  assumes "wf_tree ts" and "w < length ts"
    and "\<exists>v \<in> set (head_chain ts w). main_verb (ts ! v)"
  shows "\<exists>v. get_verb ts w = Some v \<and> List.find (\<lambda>v. main_verb (ts ! v)) (head_chain ts w) = Some v
           \<and> v < length ts \<and> dep (ts ! v) \<noteq> ''aux''"
proof -
  from assms(3) obtain k0 where k0: "k0 < length ts" "main_verb (ts ! ancestor ts k0 w)"
    by (auto simp add: set_head_chain)
  define k where "k = (LEAST k. main_verb (ts ! ancestor ts k w))"
  have mk: "main_verb (ts ! ancestor ts k w)"
    unfolding k_def using k0(2) by (rule LeastI)
  have lk: "\<forall>j<k. \<not> main_verb (ts ! ancestor ts j w)"
    unfolding k_def using not_less_Least by blast
  have "k \<le> k0" unfolding k_def using k0(2) by (rule Least_le)
  with k0(1) have kn: "k < length ts" by simp
  have g: "get_verb ts w = Some (ancestor ts k w)" using mk lk by (rule get_verb_first)
  have "List.find (\<lambda>v. main_verb (ts ! v)) (head_chain ts w) = Some (ancestor ts k w)"
    unfolding find_Some_iff using kn mk lk
    by (intro exI [of _ k]) (simp add: head_chain_nth length_head_chain)
  moreover have "dep (ts ! ancestor ts k w) \<noteq> ''aux''" using mk by (simp add: main_verb_def)
  moreover have "ancestor ts k w < length ts" using assms(1,2) by (rule ancestor_in_doc)
  ultimately show ?thesis using g by blast
qed

theorem get_verb_first_verb_witness:
  "wf_tree sent_tokens \<and> 3 < length sent_tokens
   \<and> (\<exists>v \<in> set (head_chain sent_tokens 3). main_verb (sent_tokens ! v))
   \<and> get_verb sent_tokens 3 = Some 5
   \<and> List.find (\<lambda>v. main_verb (sent_tokens ! v)) (head_chain sent_tokens 3) = Some 5
   \<and> dep (sent_tokens ! 5) \<noteq> ''aux''"
proof -
  have 1: "wf_tree sent_tokens" by code_simp
  have 2: "3 < length sent_tokens" by code_simp
  have 3: "\<exists>v \<in> set (head_chain sent_tokens 3). main_verb (sent_tokens ! v)" by code_simp
  have 4: "List.find (\<lambda>v. main_verb (sent_tokens ! v)) (head_chain sent_tokens 3) = Some 5"
    by code_simp
  from get_verb_first_verb [OF 1 2 3] 4 have "get_verb sent_tokens 3 = Some 5
    \<and> dep (sent_tokens ! 5) \<noteq> ''aux''" by auto
  with 1 2 3 4 show ?thesis by blast
qed

text \<open>
  Claim C9: \<open>get_verb\<close> returns a token tagged \<open>VERB\<close> with a label other than
  \<open>aux\<close> unchanged, and it is idempotent where it returns: applied to its own result it
  returns that result again.
\<close>

theorem get_verb_of_verb:
  assumes "w < length ts"
  shows "(main_verb (ts ! w) \<longrightarrow> get_verb ts w = Some w)
       \<and> (\<forall>v. get_verb ts w = Some v \<longrightarrow> get_verb ts v = Some v)"
proof (intro conjI allI impI)
  assume "main_verb (ts ! w)"
  then show "get_verb ts w = Some w" by (subst get_verb_unfold) simp
next
  fix v assume "get_verb ts w = Some v"
  from get_verb_Some [OF this] have "main_verb (ts ! v)" by blast
  then show "get_verb ts v = Some v" by (subst get_verb_unfold) simp
qed

theorem get_verb_of_verb_witness:
  "5 < length sent_tokens \<and> main_verb (sent_tokens ! 5) \<and> get_verb sent_tokens 5 = Some 5
   \<and> 3 < length sent_tokens \<and> get_verb sent_tokens 3 = Some 5"
proof -
  have 1: "5 < length sent_tokens" by code_simp
  have 2: "main_verb (sent_tokens ! 5)" by code_simp
  have 3: "3 < length sent_tokens" by code_simp
  have 4: "get_verb sent_tokens 3 = Some 5" by code_simp
  from get_verb_of_verb [OF 1] 2 have 5: "get_verb sent_tokens 5 = Some 5" by blast
  from get_verb_of_verb [OF 3] 4 have "get_verb sent_tokens 5 = Some 5" by blast
  with 1 2 3 4 show ?thesis by blast
qed

section \<open>Properties of the lexicon matcher\<close>

lemma distinct_match_words: "distinct (match_words ts words s)"
  by (simp add: match_words_def span_tokens_def)

text \<open>
  Claim C7: the lexicon matcher (the comprehensions \<open>ep_words\<close>, \<open>fp_words\<close> and
  \<open>e_words\<close>) returns exactly the tokens of the sentence whose text equals an entry of
  the word list, character for character, in the order of the sentence: the result is
  sorted by position, without repetition, and holds precisely those tokens.
\<close>

theorem match_words_exact:
  "sorted (match_words ts words s) \<and> distinct (match_words ts words s)
   \<and> set (match_words ts words s) =
       {w. fst s \<le> w \<and> w < snd s \<and> (\<exists>k. k \<in> set words \<and> tok_text (ts ! w) = k)}"
  by (auto simp add: match_words_def span_tokens_def sorted_wrt_filter)

lemma match_words_case_sensitive:
  "match_words [mk_token ''Earnings'' ''NOUN'' ''nsubj'' 3, mk_token ''earning'' ''NOUN'' ''dobj'' 3,
                mk_token ''earnings'' ''NOUN'' ''dobj'' 3, mk_token ''rose'' ''VERB'' ''ROOT'' 3]
     earnings_words (0, 4) = [2]"
  by code_simp

section \<open>Properties of the tone computation\<close>

text \<open>The words that \<open>str_split\<close> returns are not empty and hold no whitespace.\<close>

lemma split_ws_words:
  "word \<in> set (split_ws cur s) \<Longrightarrow> list_all (\<lambda>c. \<not> is_space c) cur
   \<Longrightarrow> word \<noteq> [] \<and> list_all (\<lambda>c. \<not> is_space c) word"
  by (induction cur s rule: split_ws.induct) (auto split: if_splits)

lemma str_split_words:
  "word \<in> set (str_split sentence) \<Longrightarrow> word \<noteq> [] \<and> list_all (\<lambda>c. \<not> is_space c) word"
  unfolding str_split_def using split_ws_words [of word "[]" sentence] by simp

text \<open>The no-break space U+00A0, the next-line character U+0085 and the wide spaces
  separate words, as they do for \<open>str.split\<close>.\<close>

lemma str_split_unicode:
  "str_split (ustr ''fine'' @ [0xA0] @ ustr ''awful'') = [ustr ''fine'', ustr ''awful'']
   \<and> str_split (ustr ''a'' @ [0x85] @ ustr ''b'') = [ustr ''a'', ustr ''b'']
   \<and> str_split (ustr ''a'' @ [0x3000, 0x2003] @ ustr ''b'') = [ustr ''a'', ustr ''b'']"
  by (simp add: str_split_def is_space_def ustr_def)

lemma tone_unicode:
  "tone positive_words negative_words (ustr ''fine'' @ [0xA0] @ ustr ''awful'') = Inr 1
   \<and> tone [ustr ''a'' @ [0xA0] @ ustr ''b''] [] (ustr ''a'' @ [0xA0] @ ustr ''b'')
        = Inl ZeroDivisionError"
  by (simp add: tone_def str_split_def is_space_def ustr_def positive_words_def
        negative_words_def)

text \<open>The notebook's sentence has the tone 1, as the notebook prints.\<close>

lemma tone_notebook:
  "tone positive_words negative_words
     (ustr ''We had an awful quarter, sales have been terrible.'') = Inr 1"
  by (simp add: tone_def str_split_def is_space_def ustr_def positive_words_def
        negative_words_def)

text \<open>
  Claim C10: when no word of the sentence, split at whitespace, is in the list of positive
  words or in the list of negative words, both counts are zero and the division raises
  \<open>ZeroDivisionError\<close>; no tone is returned.
\<close>

theorem tone_zero_division:
  assumes "\<forall>word \<in> set (str_split sentence). word \<notin> set pw \<and> word \<notin> set nw"
  shows "tone pw nw sentence = Inl ZeroDivisionError"
proof -
  have "[word \<leftarrow> str_split sentence. word \<in> set pw] = []"
    using assms by (simp add: filter_empty_conv)
  moreover have "[word \<leftarrow> str_split sentence. word \<in> set nw] = []"
    using assms by (simp add: filter_empty_conv)
  ultimately show ?thesis by (simp add: tone_def)
qed

theorem tone_zero_division_witness:
  "str_split (ustr ''XYZ announced that earnings will increase this year.'') =
     map ustr [''XYZ'', ''announced'', ''that'', ''earnings'', ''will'', ''increase'', ''this'',
               ''year.'']
   \<and> tone positive_words negative_words
        (ustr ''XYZ announced that earnings will increase this year.'') = Inl ZeroDivisionError"
proof -
  have s: "str_split (ustr ''XYZ announced that earnings will increase this year.'') =
     map ustr [''XYZ'', ''announced'', ''that'', ''earnings'', ''will'', ''increase'', ''this'',
               ''year.'']"
    by (simp add: str_split_def is_space_def ustr_def)
  have "\<forall>word \<in> set (str_split (ustr ''XYZ announced that earnings will increase this year.'')).
          word \<notin> set positive_words \<and> word \<notin> set negative_words"
    unfolding s by (simp add: positive_words_def negative_words_def ustr_def)
  from tone_zero_division [OF this] s show ?thesis by blast
qed

section \<open>Properties of the co-occurrence matcher\<close>

lemma update_fresh: "k \<notin> fst ` set d \<Longrightarrow> AList.update k v d = d @ [(k, v)]"
  by (induction d) auto

lemma verb_dict_None:
  "\<exists>w \<in> set ws. get_verb ts w = None \<Longrightarrow> verb_dict ts ws d = None"
  by (induction ws arbitrary: d) (auto split: option.splits)

lemma verb_dict_returns:
  assumes "verb_dict ts ws d = Some r" and "w \<in> set ws"
  shows "get_verb ts w \<noteq> None"
proof
  assume "get_verb ts w = None"
  with assms(2) have "\<exists>w \<in> set ws. get_verb ts w = None" by blast
  then have "verb_dict ts ws d = None" by (rule verb_dict_None)
  with assms(1) show False by simp
qed

lemma verb_dict_Some:
  assumes "distinct ws" and "set ws \<inter> fst ` set d = {}"
    and "\<forall>w \<in> set ws. get_verb ts w \<noteq> None"
  shows "verb_dict ts ws d = Some (d @ verbs_of ts ws)"
  using assms
proof (induction ws arbitrary: d)
  case Nil
  then show ?case by (simp add: verbs_of_def)
next
  case (Cons w ws)
  from Cons.prems(3) obtain v where v: "get_verb ts w = Some v" by auto
  from Cons.prems(2) have "w \<notin> fst ` set d" by auto
  then have u: "AList.update w v d = d @ [(w, v)]" by (rule update_fresh)
  have "set ws \<inter> fst ` set (d @ [(w, v)]) = {}" using Cons.prems(1,2) by auto
  with Cons.IH [of "d @ [(w, v)]"] Cons.prems(1,3)
  have "verb_dict ts ws (d @ [(w, v)]) = Some ((d @ [(w, v)]) @ verbs_of ts ws)" by simp
  with v u show ?case by (simp add: verbs_of_def)
qed

lemma verb_dict_match:
  assumes "\<forall>w \<in> set (match_words ts words s). get_verb ts w \<noteq> None"
  shows "verb_dict ts (match_words ts words s) [] = Some (verbs_of ts (match_words ts words s))"
  using verb_dict_Some [OF distinct_match_words _ assms, of "[]"] by simp

lemma map_of_emit: "map_of (emit s i items) = (map_of items)(s \<mapsto> found items s @ [i])"
  by (simp add: emit_def found_def update_conv' split: option.splits)

lemma found_emit:
  "found (emit s i items) s' = found items s' @ (if s' = s then [i] else [])"
  by (simp add: found_def [of "emit s i items"] map_of_emit) (simp add: found_def)

lemma items_ok_emit: "items_ok items \<Longrightarrow> items_ok (emit s i items)"
  by (simp add: items_ok_def map_of_emit)

lemma found_inner:
  "found (fold (\<lambda>(f, fv) acc. if ev = fv then emit s (te, tok_text (ts ! f), ev) acc else acc)
            fp acc) s' =
   found acc s' @ (if s' = s then concat (map (\<lambda>(f, fv).
         if ev = fv then [(te, tok_text (ts ! f), ev)] else []) fp) else [])"
  by (induction fp arbitrary: acc) (auto simp add: found_emit)

lemma items_ok_inner:
  "items_ok acc \<Longrightarrow>
   items_ok (fold (\<lambda>(f, fv) acc. if ev = fv then emit s (te, tok_text (ts ! f), ev) acc else acc)
            fp acc)"
  by (induction fp arbitrary: acc) (auto simp add: items_ok_emit)

lemma found_pair_loop:
  "found (pair_loop ts s ep fp items) s' =
   found items s' @ (if s' = s then pairs_of ts ep fp else [])"
  unfolding pair_loop_def pairs_of_def
  by (induction ep arbitrary: items) (auto simp add: found_inner)

lemma items_ok_pair_loop: "items_ok items \<Longrightarrow> items_ok (pair_loop ts s ep fp items)"
  unfolding pair_loop_def
  by (induction ep arbitrary: items) (auto simp add: items_ok_inner)

lemma sent_loop_None:
  assumes "\<exists>s \<in> set ss. \<exists>w \<in> set (match_words ts ew s) \<union> set (match_words ts fw s).
             get_verb ts w = None"
  shows "sent_loop ts ew fw ss items = None"
  using assms
proof (induction ss arbitrary: items)
  case Nil
  then show ?case by simp
next
  case (Cons s ss)
  show ?case
  proof (cases "verb_dict ts (match_words ts ew s) []")
    case None
    then show ?thesis by simp
  next
    case ep: (Some ep_verbs)
    show ?thesis
    proof (cases "verb_dict ts (match_words ts fw s) []")
      case None
      with ep show ?thesis by simp
    next
      case fp: (Some fp_verbs)
      from verb_dict_returns [OF ep]
      have "\<forall>w \<in> set (match_words ts ew s). get_verb ts w \<noteq> None" by blast
      moreover from verb_dict_returns [OF fp]
      have "\<forall>w \<in> set (match_words ts fw s). get_verb ts w \<noteq> None" by blast
      ultimately have "\<exists>s \<in> set ss. \<exists>w \<in> set (match_words ts ew s) \<union> set (match_words ts fw s).
             get_verb ts w = None" using Cons.prems by auto
      from Cons.IH [OF this] ep fp show ?thesis by simp
    qed
  qed
qed

lemma sent_loop_Some:
  assumes "\<forall>s \<in> set ss. \<forall>w \<in> set (match_words ts ew s) \<union> set (match_words ts fw s).
             get_verb ts w \<noteq> None"
  shows "\<exists>res. sent_loop ts ew fw ss items = Some res
           \<and> (\<forall>s'. found res s' =
                 found items s' @ concat (map (\<lambda>s. if s' = s then sent_pairs ts ew fw s else []) ss))
           \<and> (items_ok items \<longrightarrow> items_ok res)"
  using assms
proof (induction ss arbitrary: items)
  case Nil
  then show ?case by simp
next
  case (Cons s ss)
  from Cons.prems have e: "\<forall>w \<in> set (match_words ts ew s). get_verb ts w \<noteq> None"
    and f: "\<forall>w \<in> set (match_words ts fw s). get_verb ts w \<noteq> None"
    and r: "\<forall>s \<in> set ss. \<forall>w \<in> set (match_words ts ew s) \<union> set (match_words ts fw s).
             get_verb ts w \<noteq> None" by auto
  let ?items = "pair_loop ts s (verbs_of ts (match_words ts ew s))
                  (verbs_of ts (match_words ts fw s)) items"
  from Cons.IH [OF r, of ?items] obtain res where res:
    "sent_loop ts ew fw ss ?items = Some res"
    "\<forall>s'. found res s' =
        found ?items s' @ concat (map (\<lambda>s. if s' = s then sent_pairs ts ew fw s else []) ss)"
    "items_ok ?items \<longrightarrow> items_ok res" by blast
  have 1: "sent_loop ts ew fw (s # ss) items = Some res"
    using res(1) by (simp add: verb_dict_match [OF e] verb_dict_match [OF f])
  have 2: "\<forall>s'. found res s' =
      found items s' @ concat (map (\<lambda>s. if s' = s then sent_pairs ts ew fw s else []) (s # ss))"
    using res(2) by (simp add: found_pair_loop sent_pairs_def)
  have 3: "items_ok items \<longrightarrow> items_ok res"
    using res(3) by (simp add: items_ok_pair_loop)
  from 1 2 3 show ?case by blast
qed

lemma set_pairs_of:
  "(te, tf, v) \<in> set (pairs_of ts ep fp) \<longleftrightarrow>
   (\<exists>e f. (e, v) \<in> set ep \<and> (f, v) \<in> set fp \<and> te = tok_text (ts ! e) \<and> tf = tok_text (ts ! f))"
  unfolding pairs_of_def by (fastforce split: if_splits)

lemma set_verbs_of:
  "(w, v) \<in> set (verbs_of ts ws) \<longleftrightarrow> w \<in> set ws \<and> get_verb ts w = Some v"
  unfolding verbs_of_def by (auto split: option.splits)

lemma set_match_words:
  "w \<in> set (match_words ts words s) \<longleftrightarrow> w \<in> set (span_tokens s) \<and> tok_text (ts ! w) \<in> set words"
  by (simp add: match_words_def)

lemma set_sent_pairs:
  "(te, tf, v) \<in> set (sent_pairs ts ew fw s) \<longleftrightarrow>
     (\<exists>e f. e \<in> set (span_tokens s) \<and> f \<in> set (span_tokens s)
        \<and> tok_text (ts ! e) = te \<and> te \<in> set ew \<and> tok_text (ts ! f) = tf \<and> tf \<in> set fw
        \<and> get_verb ts e = Some v \<and> get_verb ts f = Some v)"
  unfolding sent_pairs_def set_pairs_of set_verbs_of set_match_words by blast

lemma items_ok_keys: "items_ok items \<Longrightarrow> s \<in> fst ` set items \<longleftrightarrow> found items s \<noteq> []"
  unfolding items_ok_def found_def
  using map_of_eq_None_iff [of items s] by (auto split: option.splits)

text \<open>
  Where \<open>get_verb\<close> returns for every topic word and every forward-looking word of every
  sentence, \<open>find_sentence\<close> returns.  The list recorded for a sentence is then the list of
  the instances of its pairs, one for each pair of a topic-word token and a forward-word
  token with the same verb, in the order of the two loops (once more for each further
  occurrence of the span in \<open>doc.sents\<close>), and a sentence is a key only when its list is
  not empty.
\<close>

lemma find_sentence_returns:
  assumes "\<forall>s \<in> set (sents d).
             \<forall>w \<in> set (match_words (tokens d) ew s) \<union> set (match_words (tokens d) fw s).
               get_verb (tokens d) w \<noteq> None"
  shows "\<exists>res. find_sentence ew fw d = Some res
     \<and> (\<forall>s. found res s =
            concat (map (\<lambda>s'. if s = s' then sent_pairs (tokens d) ew fw s' else []) (sents d)))
     \<and> (\<forall>s. s \<in> fst ` set res \<longleftrightarrow> found res s \<noteq> [])"
proof -
  from sent_loop_Some [OF assms, of "[]"] obtain res where res:
    "sent_loop (tokens d) ew fw (sents d) [] = Some res"
    "\<forall>s'. found res s' = found [] s' @
        concat (map (\<lambda>s. if s' = s then sent_pairs (tokens d) ew fw s else []) (sents d))"
    "items_ok [] \<longrightarrow> items_ok res" by blast
  have ok: "items_ok res" using res(3) by (simp add: items_ok_def)
  have f: "found res s = concat (map (\<lambda>s'. if s = s' then sent_pairs (tokens d) ew fw s' else [])
                                  (sents d))" for s
    using res(2) [rule_format, of s] by (simp add: found_def [of "[]"])
  from res(1) have "find_sentence ew fw d = Some res" by (simp add: find_sentence_def)
  with f items_ok_keys [OF ok] show ?thesis by blast
qed

text \<open>
  In terms of the tokens: the result then holds the instance \<open>(te, tf, v)\<close> under the
  sentence \<open>s\<close> if and only if \<open>s\<close> is a sentence of the document with two tokens \<open>e\<close> and
  \<open>f\<close>, where the text \<open>te\<close> of \<open>e\<close> is a topic word, the text \<open>tf\<close> of \<open>f\<close> is a
  forward-looking word, and \<open>get_verb\<close> returns the same token \<open>v\<close> for both.
\<close>

lemma find_sentence_instances:
  assumes "\<forall>s \<in> set (sents d).
             \<forall>w \<in> set (match_words (tokens d) ew s) \<union> set (match_words (tokens d) fw s).
               get_verb (tokens d) w \<noteq> None"
  shows "\<exists>res. find_sentence ew fw d = Some res
     \<and> (\<forall>s te tf v. (te, tf, v) \<in> set (found res s) \<longleftrightarrow>
           s \<in> set (sents d)
           \<and> (\<exists>e f. e \<in> set (span_tokens s) \<and> f \<in> set (span_tokens s)
                \<and> tok_text (tokens d ! e) = te \<and> te \<in> set ew
                \<and> tok_text (tokens d ! f) = tf \<and> tf \<in> set fw
                \<and> get_verb (tokens d) e = Some v \<and> get_verb (tokens d) f = Some v))
     \<and> (\<forall>s. s \<in> fst ` set res \<longleftrightarrow> found res s \<noteq> [])"
proof -
  from sent_loop_Some [OF assms, of "[]"] obtain res where res:
    "sent_loop (tokens d) ew fw (sents d) [] = Some res"
    "\<forall>s'. found res s' = found [] s' @
        concat (map (\<lambda>s. if s' = s then sent_pairs (tokens d) ew fw s else []) (sents d))"
    "items_ok [] \<longrightarrow> items_ok res" by blast
  have ok: "items_ok res" using res(3) by (simp add: items_ok_def)
  have f: "found res s = concat (map (\<lambda>s'. if s = s' then sent_pairs (tokens d) ew fw s' else [])
                                  (sents d))" for s
    using res(2) [rule_format, of s] by (simp add: found_def [of "[]"])
  have m: "(te, tf, v) \<in> set (found res s) \<longleftrightarrow>
           s \<in> set (sents d)
           \<and> (\<exists>e f. e \<in> set (span_tokens s) \<and> f \<in> set (span_tokens s)
                \<and> tok_text (tokens d ! e) = te \<and> te \<in> set ew
                \<and> tok_text (tokens d ! f) = tf \<and> tf \<in> set fw
                \<and> get_verb (tokens d) e = Some v \<and> get_verb (tokens d) f = Some v)"
    for s te tf v
  proof (cases "s \<in> set (sents d)")
    case True
    note sp = set_sent_pairs [of te tf v "tokens d" ew fw s]
    have "(te, tf, v) \<in> set (found res s) \<longleftrightarrow> (te, tf, v) \<in> set (sent_pairs (tokens d) ew fw s)"
      unfolding f using True by (auto split: if_splits)
    with True show ?thesis unfolding sp by simp
  next
    case False
    then have "found res s = []" unfolding f by (auto split: if_splits)
    with False show ?thesis by simp
  qed
  from res(1) have "find_sentence ew fw d = Some res" by (simp add: find_sentence_def)
  with m items_ok_keys [OF ok] show ?thesis by blast
qed

lemma find_sentence_instances_analyst:
  "match_words (tokens analyst_doc) earnings_words (0, 9) = [3]
   \<and> match_words (tokens analyst_doc) forward_words (0, 9) = [4]
   \<and> match_words (tokens analyst_doc) earnings_words (9, 13) = []
   \<and> match_words (tokens analyst_doc) forward_words (9, 13) = [10]
   \<and> get_verb (tokens analyst_doc) 3 = Some 5 \<and> get_verb (tokens analyst_doc) 4 = Some 5
   \<and> get_verb (tokens analyst_doc) 10 = Some 10
   \<and> (\<exists>res. find_sentence earnings_words forward_words analyst_doc = Some res
         \<and> (''earnings'', ''will'', 5) \<in> set (found res (0, 9))
         \<and> (0, 9) \<in> fst ` set res \<and> (9, 13) \<notin> fst ` set res)"
proof -
  have s: "sents analyst_doc = [(0, 9), (9, 13)]" by (simp add: analyst_doc_def)
  have e1: "match_words (tokens analyst_doc) earnings_words (0, 9) = [3]" by code_simp
  have f1: "match_words (tokens analyst_doc) forward_words (0, 9) = [4]" by code_simp
  have e2: "match_words (tokens analyst_doc) earnings_words (9, 13) = []" by code_simp
  have f2: "match_words (tokens analyst_doc) forward_words (9, 13) = [10]" by code_simp
  have g3: "get_verb (tokens analyst_doc) 3 = Some 5" by code_simp
  have g4: "get_verb (tokens analyst_doc) 4 = Some 5" by code_simp
  have g10: "get_verb (tokens analyst_doc) 10 = Some 10" by code_simp
  have h: "\<forall>s \<in> set (sents analyst_doc).
        \<forall>w \<in> set (match_words (tokens analyst_doc) earnings_words s)
              \<union> set (match_words (tokens analyst_doc) forward_words s).
          get_verb (tokens analyst_doc) w \<noteq> None"
    unfolding s using g3 g4 g10 by (simp add: e1 f1 e2 f2)
  from find_sentence_instances [OF h] obtain res where res:
    "find_sentence earnings_words forward_words analyst_doc = Some res"
    "\<And>s te tf v. (te, tf, v) \<in> set (found res s) \<longleftrightarrow>
           s \<in> set (sents analyst_doc)
           \<and> (\<exists>e f. e \<in> set (span_tokens s) \<and> f \<in> set (span_tokens s)
                \<and> tok_text (tokens analyst_doc ! e) = te \<and> te \<in> set earnings_words
                \<and> tok_text (tokens analyst_doc ! f) = tf \<and> tf \<in> set forward_words
                \<and> get_verb (tokens analyst_doc) e = Some v \<and> get_verb (tokens analyst_doc) f = Some v)"
    "\<And>s. s \<in> fst ` set res \<longleftrightarrow> found res s \<noteq> []" by blast
  have t3: "tok_text (tokens analyst_doc ! 3) = ''earnings''" by code_simp
  have t4: "tok_text (tokens analyst_doc ! 4) = ''will''" by code_simp
  have m3: "3 \<in> set (span_tokens (0, 9))" by (simp add: span_tokens_def)
  have m4: "4 \<in> set (span_tokens (0, 9))" by (simp add: span_tokens_def)
  have we: "''earnings'' \<in> set earnings_words" by (simp add: earnings_words_def)
  have wf: "''will'' \<in> set forward_words" by (simp add: forward_words_def)
  have i1: "(''earnings'', ''will'', 5) \<in> set (found res (0, 9))"
    unfolding res(2) s using m3 m4 t3 t4 we wf g3 g4 by auto
  then have k1: "(0, 9) \<in> fst ` set res" unfolding res(3) by auto
  have "found res (9, 13) = []"
  proof (rule ccontr)
    assume "found res (9, 13) \<noteq> []"
    then obtain te tf v where "(te, tf, v) \<in> set (found res (9, 13))"
      by (cases "found res (9, 13)") auto
    then obtain e where "e \<in> set (span_tokens (9, 13))"
      "tok_text (tokens analyst_doc ! e) \<in> set earnings_words"
      unfolding res(2) by blast
    then have "e \<in> set (match_words (tokens analyst_doc) earnings_words (9, 13))"
      by (simp add: match_words_def)
    then show False by (simp add: e2)
  qed
  then have k2: "(9, 13) \<notin> fst ` set res" unfolding res(3) by simp
  from e1 f1 e2 f2 g3 g4 g10 res(1) i1 k1 k2 show ?thesis by blast
qed

lemma get_verb_None_chain:
  assumes "wf_tree ts" and "w < length ts"
    and "\<forall>v \<in> set (head_chain ts w). \<not> main_verb (ts ! v)"
  shows "get_verb ts w = None"
proof (rule get_verb_None, rule allI)
  fix k
  from chain_bounded [OF assms(1,2)]
  obtain j where "j < length ts" "ancestor ts k w = ancestor ts j w" by blast
  then have "ancestor ts k w \<in> set (head_chain ts w)" by (auto simp add: set_head_chain)
  with assms(3) show "\<not> main_verb (ts ! ancestor ts k w)" by blast
qed

text \<open>
  Claim C3 says that \<open>find_sentence\<close> emits an instance for a pair of tokens exactly when
  the two lie in one sentence, are a topic word and a forward-looking word, and have the
  same verb.  \<open>find_sentence\<close> calls \<open>get_verb\<close> on every matched word of every sentence
  before it returns anything, and \<open>get_verb\<close> has no exit at the root: in a well-formed
  document with one matched word whose head chain holds no token tagged \<open>VERB\<close> with a
  label other than \<open>aux\<close>, \<open>find_sentence\<close> does not return, whatever pairs the document
  has.  In the document of the witness the first sentence has the pair \<open>earnings\<close>,
  \<open>will\<close> with the common verb \<open>increase\<close>, and the second sentence has a topic word and
  no verb.
\<close>

theorem find_sentence_without_verb:
  assumes "wf_tree (tokens d)" and "s \<in> set (sents d)"
    and "w \<in> set (match_words (tokens d) ew s) \<union> set (match_words (tokens d) fw s)"
    and "w < length (tokens d)"
    and "\<forall>v \<in> set (head_chain (tokens d) w). \<not> main_verb (tokens d ! v)"
  shows "find_sentence ew fw d = None"
proof -
  have "get_verb (tokens d) w = None" using assms(1,4,5) by (rule get_verb_None_chain)
  with assms(2,3) have "\<exists>s \<in> set (sents d).
      \<exists>w \<in> set (match_words (tokens d) ew s) \<union> set (match_words (tokens d) fw s).
        get_verb (tokens d) w = None" by blast
  then show ?thesis unfolding find_sentence_def by (rule sent_loop_None)
qed

theorem find_sentence_without_verb_witness:
  "wf_tree (tokens two_sent_doc)
   \<and> sents two_sent_doc = [(0, 9), (9, 12)]
   \<and> match_words (tokens two_sent_doc) earnings_words (9, 12) = [10]
   \<and> 10 < length (tokens two_sent_doc)
   \<and> head_chain (tokens two_sent_doc) 10 = replicate 12 10
   \<and> \<not> main_verb (tokens two_sent_doc ! 10)
   \<and> match_words (tokens two_sent_doc) earnings_words (0, 9) = [3]
   \<and> match_words (tokens two_sent_doc) forward_words (0, 9) = [4]
   \<and> tok_text (tokens two_sent_doc ! 3) = ''earnings''
   \<and> tok_text (tokens two_sent_doc ! 4) = ''will''
   \<and> get_verb (tokens two_sent_doc) 3 = Some 5 \<and> get_verb (tokens two_sent_doc) 4 = Some 5
   \<and> find_sentence earnings_words forward_words two_sent_doc = None"
proof -
  have 1: "wf_tree (tokens two_sent_doc)" by code_simp
  have 2: "sents two_sent_doc = [(0, 9), (9, 12)]" by (simp add: two_sent_doc_def)
  have 3: "match_words (tokens two_sent_doc) earnings_words (9, 12) = [10]" by code_simp
  have 4: "10 < length (tokens two_sent_doc)" by code_simp
  have 5: "head_chain (tokens two_sent_doc) 10 = replicate 12 10" by code_simp
  have 6: "\<not> main_verb (tokens two_sent_doc ! 10)" by code_simp
  have 7: "match_words (tokens two_sent_doc) earnings_words (0, 9) = [3]" by code_simp
  have 8: "match_words (tokens two_sent_doc) forward_words (0, 9) = [4]" by code_simp
  have 9: "tok_text (tokens two_sent_doc ! 3) = ''earnings''
           \<and> tok_text (tokens two_sent_doc ! 4) = ''will''" by code_simp
  have 10: "get_verb (tokens two_sent_doc) 3 = Some 5 \<and> get_verb (tokens two_sent_doc) 4 = Some 5"
    by code_simp
  have s: "(9, 12) \<in> set (sents two_sent_doc)" unfolding 2 by simp
  have w: "10 \<in> set (match_words (tokens two_sent_doc) earnings_words (9, 12))
              \<union> set (match_words (tokens two_sent_doc) forward_words (9, 12))"
    unfolding 3 by simp
  have c: "\<forall>v \<in> set (head_chain (tokens two_sent_doc) 10). \<not> main_verb (tokens two_sent_doc ! v)"
    unfolding 5 using 6 by simp
  from find_sentence_without_verb [OF 1 s w 4 c] 1 2 3 4 5 6 7 8 9 10 show ?thesis by blast
qed

lemma match_words_texts:
  "match_words ts words (0, length ts) =
     [w \<leftarrow> [0..<length (map tok_text ts)]. map tok_text ts ! w \<in> set words]"
  unfolding match_words_def span_tokens_def by (auto intro: filter_cong)

lemma bad_sent_earnings:
  "[w \<leftarrow> [0..<length bad_sent_words]. bad_sent_words ! w \<in> set earnings_words] = [4]"
  by code_simp

lemma bad_sent_forward:
  "[w \<leftarrow> [0..<length bad_sent_words]. bad_sent_words ! w \<in> set forward_words] = [19]"
  by code_simp

text \<open>
  Claim C5: for every parse of the words of \<open>bad_sent\<close> as one sentence in which
  \<open>get_verb\<close> returns different tokens for \<open>earnings\<close> (token 4) and for \<open>will\<close>
  (token 19), \<open>find_sentence\<close> returns the empty dictionary: no instance.
\<close>

theorem find_sentence_bad_sent:
  assumes "map tok_text ts = bad_sent_words"
    and "get_verb ts 4 = Some ev" and "get_verb ts 19 = Some fv" and "ev \<noteq> fv"
  shows "find_sentence earnings_words forward_words \<lparr>tokens = ts, sents = [(0, length ts)]\<rparr>
           = Some []"
proof -
  have e: "match_words ts earnings_words (0, length ts) = [4]"
    unfolding match_words_texts assms(1) by (rule bad_sent_earnings)
  have f: "match_words ts forward_words (0, length ts) = [19]"
    unfolding match_words_texts assms(1) by (rule bad_sent_forward)
  show ?thesis
    using assms(2-4) by (simp add: find_sentence_def e f pair_loop_def)
qed

theorem find_sentence_bad_sent_witness:
  "map tok_text bad_sent_tokens = bad_sent_words
   \<and> get_verb bad_sent_tokens 4 = Some 6 \<and> get_verb bad_sent_tokens 19 = Some 20
   \<and> tok_text (bad_sent_tokens ! 6) = ''fallen'' \<and> tok_text (bad_sent_tokens ! 20) = ''manage''
   \<and> wf_tree bad_sent_tokens
   \<and> find_sentence earnings_words forward_words
        \<lparr>tokens = bad_sent_tokens, sents = [(0, length bad_sent_tokens)]\<rparr> = Some []"
proof -
  have 1: "map tok_text bad_sent_tokens = bad_sent_words" by code_simp
  have 2: "get_verb bad_sent_tokens 4 = Some 6" by code_simp
  have 3: "get_verb bad_sent_tokens 19 = Some 20" by code_simp
  have 4: "(6::nat) \<noteq> 20" by simp
  have 5: "tok_text (bad_sent_tokens ! 6) = ''fallen'' \<and> tok_text (bad_sent_tokens ! 20) = ''manage''"
    by code_simp
  have 6: "wf_tree bad_sent_tokens" by code_simp
  from find_sentence_bad_sent [OF 1 2 3 4] 1 2 3 5 6 show ?thesis by blast
qed

section \<open>The notebook's sentence\<close>

text \<open>
  Claim C4: on the notebook's parse of \<open>XYZ announced that earnings will increase this
  year.\<close>, with the topic word \<open>earnings\<close> and the forward word \<open>will\<close> (and also with
  the notebook's full word lists), \<open>find_sentence\<close> returns one sentence with exactly one
  instance: \<open>earnings\<close>, \<open>will\<close> and the token \<open>increase\<close>.
\<close>

theorem find_sentence_sent:
  "find_sentence [''earnings''] [''will''] sent_doc = Some [((0, 9), [(''earnings'', ''will'', 5)])]
   \<and> find_sentence earnings_words forward_words sent_doc
        = Some [((0, 9), [(''earnings'', ''will'', 5)])]
   \<and> tok_text (tokens sent_doc ! 5) = ''increase''"
  by code_simp

section \<open>Properties of the subject locator\<close>

lemma fold_fold_concat: "fold (\<lambda>xs. fold f (g xs)) xss acc = fold f (concat (map g xss)) acc"
  by (induction xss arbitrary: acc) simp_all

lemma get_subjMap_scan: "get_subjMap d = fold (subj_step (tokens d)) (scan_order d) []"
  unfolding get_subjMap_def scan_order_def by (rule fold_fold_concat)

lemma map_of_subj_step:
  "map_of (subj_step ts w acc) v =
     (if dep (ts ! w) = ''nsubj'' \<and> head (ts ! w) = v then Some w else map_of acc v)"
  by (simp add: subj_step_def update_conv')

lemma distinct_fold_subj_step:
  "distinct (map fst acc) \<Longrightarrow> distinct (map fst (fold (subj_step ts) ws acc))"
  by (induction ws arbitrary: acc) (simp_all add: subj_step_def distinct_update)

lemma map_of_fold_subj_step:
  "map_of (fold (subj_step ts) ws acc) v =
     (case [w \<leftarrow> ws. dep (ts ! w) = ''nsubj'' \<and> head (ts ! w) = v] of
        [] \<Rightarrow> map_of acc v
      | l \<Rightarrow> Some (last l))"
proof (induction ws arbitrary: acc)
  case Nil
  then show ?case by simp
next
  case (Cons w ws)
  have "map_of (fold (subj_step ts) (w # ws) acc) v =
          map_of (fold (subj_step ts) ws (subj_step ts w acc)) v" by simp
  also have "\<dots> = (case [w \<leftarrow> ws. dep (ts ! w) = ''nsubj'' \<and> head (ts ! w) = v] of
        [] \<Rightarrow> map_of (subj_step ts w acc) v
      | l \<Rightarrow> Some (last l))" by (rule Cons.IH)
  also have "\<dots> = (case [w \<leftarrow> w # ws. dep (ts ! w) = ''nsubj'' \<and> head (ts ! w) = v] of
        [] \<Rightarrow> map_of acc v
      | l \<Rightarrow> Some (last l))"
    by (cases "[w \<leftarrow> ws. dep (ts ! w) = ''nsubj'' \<and> head (ts ! w) = v]")
       (simp_all add: map_of_subj_step)
  finally show ?case .
qed

text \<open>
  Claim C6: the map returned by \<open>get_subjMap\<close> has at most one entry for a token, and
  the entry for \<open>v\<close> is the last token, in the order of the scan, whose label is
  \<open>nsubj\<close> and whose head is \<open>v\<close>; \<open>v\<close> is a key exactly when there is such a token.
\<close>

theorem get_subjMap_last_subject:
  "distinct (map fst (get_subjMap d))
   \<and> map_of (get_subjMap d) v =
       (case [w \<leftarrow> scan_order d. dep (tokens d ! w) = ''nsubj'' \<and> head (tokens d ! w) = v] of
          [] \<Rightarrow> None
        | l \<Rightarrow> Some (last l))"
proof
  show "distinct (map fst (get_subjMap d))"
    by (simp add: get_subjMap_scan distinct_fold_subj_step)
  show "map_of (get_subjMap d) v =
       (case [w \<leftarrow> scan_order d. dep (tokens d ! w) = ''nsubj'' \<and> head (tokens d ! w) = v] of
          [] \<Rightarrow> None
        | l \<Rightarrow> Some (last l))"
    unfolding get_subjMap_scan map_of_fold_subj_step
    by (simp split: list.splits)
qed

lemma get_subjMap_sent: "get_subjMap sent_doc = [(1, 0), (5, 3)]"
  by code_simp

section \<open>The subject lookup\<close>

lemma lookup_instances_KeyError:
  "(e, f, v) \<in> set insts \<Longrightarrow> map_of subj_map v = None
   \<Longrightarrow> lookup_instances subj_map insts = Inl KeyError"
proof (induction subj_map insts rule: lookup_instances.induct)
  case (1 subj_map)
  then show ?case by simp
next
  case (2 subj_map e' f' v' rest)
  show ?case
  proof (cases "map_of subj_map v'")
    case None
    then show ?thesis by simp
  next
    case (Some subj)
    with 2 have "(e, f, v) \<in> set rest" by auto
    with 2 Some have "lookup_instances subj_map rest = Inl KeyError" by simp
    with Some show ?thesis by simp
  qed
qed

text \<open>
  Claim C8: when \<open>find_sentence\<close> has found an instance whose verb is not a key of the
  map of subjects, the lookup \<open>subj_map[v]\<close> raises \<open>KeyError\<close> and the cell produces
  no result.  The elliptical sentence \<open>will increase earnings.\<close> is such a document.
\<close>

theorem lookup_subjects_KeyError:
  assumes "find_sentence ew fw d = Some found_sentences"
    and "(s, insts) \<in> set found_sentences" and "(e, f, v) \<in> set insts"
    and "map_of (get_subjMap d) v = None"
  shows "lookup_subjects (get_subjMap d) found_sentences = Inl KeyError"
proof -
  from assms(2,3) have "(e, f, v) \<in> set (concat (map snd found_sentences))" by force
  then show ?thesis
    unfolding lookup_subjects_def using assms(4) by (rule lookup_instances_KeyError)
qed

theorem lookup_subjects_KeyError_witness:
  "find_sentence earnings_words forward_words elliptical_doc
     = Some [((0, 4), [(''earnings'', ''will'', 1)])]
   \<and> get_subjMap elliptical_doc = []
   \<and> lookup_subjects (get_subjMap elliptical_doc) [((0, 4), [(''earnings'', ''will'', 1)])]
       = Inl KeyError"
proof -
  have 1: "find_sentence earnings_words forward_words elliptical_doc
     = Some [((0, 4), [(''earnings'', ''will'', 1)])]" by code_simp
  have 2: "((0, 4), [(''earnings'', ''will'', 1)]) \<in> set [((0::nat, 4::nat), [(''earnings'', ''will'', 1::nat)])]"
    by simp
  have 3: "(''earnings'', ''will'', 1) \<in> set [(''earnings'', ''will'', 1::nat)]" by simp
  have 4: "get_subjMap elliptical_doc = []" by code_simp
  then have 5: "map_of (get_subjMap elliptical_doc) 1 = None" by simp
  from lookup_subjects_KeyError [OF 1 2 3 5] 1 4 show ?thesis by blast
qed

lemma lookup_subjects_sent:
  "lookup_head_subjects sent_tokens (get_subjMap sent_doc) [(3, 5)] = Inr [(3, 0)]"
  by code_simp

end
